theory Spec2Isabelle
  imports Complex_Main "HOL-Library.Multiset"
begin

section \<open>Random projections notebook: the dimensionality bound\<close>

text \<open>
  The notebook \<^verbatim>\<open>Aplicacion de Random Projections.ipynb\<close> is a sequence of cells.
  Cell 7 computes the output dimensionality:
  \<^verbatim>\<open>
  error=0.1
  m=int(np.log(p)/(error**2))+1
  \<close>
  where \<open>p = tfidf.shape[0]\<close> is a non-negative Python integer.
\<close>

datatype error = OverflowError | ValueError | IndexError | ZeroDivisionError
  | AttributeError | TypeError | InvalidArgumentError

subsection \<open>Doubles\<close>

text \<open>
  A double is a finite value, an infinity or \<open>nan\<close>. A finite value is given by the real
  number it denotes; \<open>is_double\<close> says which reals are such values: an integer below
  \<open>2\<^sup>5\<^sup>3\<close> in magnitude times a power of two between \<open>2\<^sup>-\<^sup>1\<^sup>0\<^sup>7\<^sup>4\<close> and \<open>2\<^sup>9\<^sup>7\<^sup>1\<close>.
\<close>

datatype float64 = Fin real | PInf | NInf | NaN

definition is_double :: "real \<Rightarrow> bool" where
  "is_double x =
     (\<exists>(m::int) (k::nat). \<bar>m\<bar> < 2 ^ 53 \<and> k \<le> 2045 \<and> x = of_int m * 2 ^ k / 2 ^ 1074)"

text \<open>
  The operations that round are parameters, one for each operation the notebook uses:
  \<^item> \<open>f_pow2 x\<close>: Python's \<open>x**2\<close> on a float, \<open>None\<close> when the result overflows
    (Python then raises \<open>OverflowError\<close>);
  \<^item> \<open>f_log p\<close>: \<open>np.log(p)\<close> for an integer \<open>0 < p < 2\<^sup>6\<^sup>4\<close>;
  \<^item> \<open>f_div a d\<close>: the quotient of two finite doubles, \<open>d\<close> not zero;
  \<^item> \<open>f_add a b\<close>: the sum of two finite doubles;
  \<^item> \<open>f_sqrt n\<close>: \<open>np.sqrt(n)\<close> for a non-negative integer.
\<close>

record fpu =
  f_pow2 :: "real \<Rightarrow> real option"
  f_log :: "nat \<Rightarrow> float64"
  f_div :: "real \<Rightarrow> real \<Rightarrow> float64"
  f_add :: "real \<Rightarrow> real \<Rightarrow> float64"
  f_sqrt :: "nat \<Rightarrow> real"

text \<open>
  What is assumed of them, and no more:
  \<^item> the square of zero is zero, and the square of a number between \<open>2\<^sup>-\<^sup>5\<^sup>0\<^sup>0\<close> and
    \<open>2\<^sup>5\<^sup>0\<^sup>0\<close> in magnitude neither overflows nor is off by more than the fraction
    \<open>2\<^sup>-\<^sup>4\<^sup>0\<close> of the exact square;
  \<^item> the logarithm of an integer \<open>0 < p < 2\<^sup>6\<^sup>4\<close> is finite, within \<open>2\<^sup>-\<^sup>4\<^sup>0\<close> of the exact
    logarithm, and exactly zero at \<open>p = 1\<close>;
  \<^item> division rounds the exact quotient to a double without crossing a double: whenever
    two doubles enclose the exact quotient, they enclose the result.
  Outside these ranges a square may underflow to zero or overflow, and a quotient may
  overflow to an infinity.
\<close>

definition ieee :: "fpu \<Rightarrow> bool" where
  "ieee F =
     (f_pow2 F 0 = Some 0
      \<and> (\<forall>x. 1 / 2 ^ 500 \<le> \<bar>x\<bar> \<and> \<bar>x\<bar> \<le> 2 ^ 500 \<longrightarrow>
             (\<exists>y. f_pow2 F x = Some y \<and> \<bar>y - x ^ 2\<bar> \<le> x ^ 2 / 2 ^ 40))
      \<and> (\<forall>p. 0 < p \<and> p < 2 ^ 64 \<longrightarrow>
             (\<exists>y. f_log F p = Fin y \<and> \<bar>y - ln (real p)\<bar> \<le> 1 / 2 ^ 40 \<and> (p = 1 \<longrightarrow> y = 0)))
      \<and> (\<forall>a d lo hi. d \<noteq> 0 \<and> is_double lo \<and> is_double hi \<and> lo \<le> a / d \<and> a / d \<le> hi \<longrightarrow>
             (\<exists>q. f_div F a d = Fin q \<and> lo \<le> q \<and> q \<le> hi)))"

text \<open>
  The arithmetic in which no operation rounds or overflows. It meets the assumptions
  above and is the concrete instance at which properties are evaluated.
\<close>

definition exact :: fpu where
  "exact = \<lparr>f_pow2 = (\<lambda>x. Some (x ^ 2)), f_log = (\<lambda>p. Fin (ln (real p))),
     f_div = (\<lambda>a d. Fin (a / d)), f_add = (\<lambda>a b. Fin (a + b)),
     f_sqrt = (\<lambda>n. sqrt (real n))\<rparr>"

subsection \<open>The computation of \<open>m\<close>\<close>

text \<open>
  \<open>np.log\<close> on a non-negative Python integer: \<open>np.log(0)\<close> is \<open>-inf\<close> (with a warning), and
  an integer that does not fit 64 bits is no numeric array element, so that \<open>np.log\<close>
  raises \<open>TypeError\<close>.
\<close>

definition np_log :: "fpu \<Rightarrow> nat \<Rightarrow> error + float64" where
  "np_log F p =
     (if p = 0 then Inr NInf
      else if 2 ^ 64 \<le> p then Inl TypeError
      else Inr (f_log F p))"

text \<open>
  Division of a numpy double by a finite double. Numpy does not raise on a zero
  divisor: it yields \<open>nan\<close> for \<open>0/0\<close> and a signed infinity otherwise.
\<close>

fun float_div :: "fpu \<Rightarrow> float64 \<Rightarrow> real \<Rightarrow> float64" where
  "float_div F (Fin a) d =
     (if d = 0 then (if a = 0 then NaN else if 0 < a then PInf else NInf)
      else f_div F a d)"
| "float_div F PInf d = (if d < 0 then NInf else PInf)"
| "float_div F NInf d = (if d < 0 then PInf else NInf)"
| "float_div F NaN d = NaN"

text \<open>
  Python's \<open>int\<close> on a float truncates towards zero, raises \<open>OverflowError\<close> on an
  infinity and \<open>ValueError\<close> on \<open>nan\<close>.
\<close>

fun py_int :: "float64 \<Rightarrow> error + int" where
  "py_int (Fin x) = Inr (if 0 \<le> x then \<lfloor>x\<rfloor> else \<lceil>x\<rceil>)"
| "py_int PInf = Inl OverflowError"
| "py_int NInf = Inl OverflowError"
| "py_int NaN = Inl ValueError"

text \<open>
  \<open>np.log(p)/(error**2)\<close>, the double that \<open>int\<close> receives. Python evaluates the
  logarithm first, then the square.
\<close>

definition quotient :: "fpu \<Rightarrow> nat \<Rightarrow> real \<Rightarrow> error + float64" where
  "quotient F p err =
     (case np_log F p of
        Inl e \<Rightarrow> Inl e
      | Inr l \<Rightarrow>
          (case f_pow2 F err of
             None \<Rightarrow> Inl OverflowError
           | Some d \<Rightarrow> Inr (float_div F l d)))"

text \<open>\<open>m=int(np.log(p)/(error**2))+1\<close>, with \<open>p\<close> and \<open>error\<close> as parameters.\<close>

definition compute_m :: "fpu \<Rightarrow> nat \<Rightarrow> real \<Rightarrow> error + int" where
  "compute_m F p err =
     (case quotient F p err of
        Inl e \<Rightarrow> Inl e
      | Inr q \<Rightarrow> (case py_int q of Inl e \<Rightarrow> Inl e | Inr k \<Rightarrow> Inr (k + 1)))"

text \<open>The literal \<open>0.1\<close> of cell 7 is the double nearest to one tenth.\<close>

definition cell7_error :: real where
  "cell7_error = 3602879701896397 / 2 ^ 55"

section \<open>Matrices and the projection\<close>

text \<open>
  A dense or sparse two-dimensional array is the list of its rows; every array that
  numpy or scipy builds is rectangular, which \<open>is_matrix\<close> records together with the
  shape.
\<close>

type_synonym matrix = "real list list"

definition nrows :: "matrix \<Rightarrow> nat" where
  "nrows M = length M"

definition ncols :: "matrix \<Rightarrow> nat" where
  "ncols M = (case M of [] \<Rightarrow> 0 | r # _ \<Rightarrow> length r)"

definition is_matrix :: "nat \<Rightarrow> nat \<Rightarrow> matrix \<Rightarrow> bool" where
  "is_matrix k l M = (length M = k \<and> list_all (\<lambda>r. length r = l) M)"

text \<open>\<open>M.T\<close>: the list of the columns of \<open>M\<close>.\<close>

definition column :: "matrix \<Rightarrow> nat \<Rightarrow> real list" where
  "column M j = map (\<lambda>r. r ! j) M"

definition mat_T :: "matrix \<Rightarrow> matrix" where
  "mat_T M = map (column M) [0..<ncols M]"

definition dot :: "real list \<Rightarrow> real list \<Rightarrow> real" where
  "dot r c = sum_list (map2 (*) r c)"

text \<open>
  \<open>np.dot(A, B)\<close> on two-dimensional operands is the matrix product; operands whose
  inner dimensions differ raise a dimension error.
\<close>

definition np_dot :: "matrix \<Rightarrow> matrix \<Rightarrow> error + matrix" where
  "np_dot A B =
     (if ncols A \<noteq> nrows B then Inl ValueError
      else Inr (map (\<lambda>r. map (\<lambda>c. dot r c) (mat_T B)) A))"

text \<open>
  Cells 11--12 and cell 17 reduce a document-term matrix with the same expression:
  \<^verbatim>\<open>
  M_prime=np.dot(rp.components_,tfidf.T)
  M_prime=M_prime.T
  \<close>
\<close>

definition project :: "matrix \<Rightarrow> matrix \<Rightarrow> error + matrix" where
  "project R M =
     (case np_dot R (mat_T M) of
        Inl e \<Rightarrow> Inl e
      | Inr P \<Rightarrow> Inr (mat_T P))"

text \<open>
  The document of one vocabulary term (first markdown cell): all components zero but the
  one of the chosen term, which is one.
\<close>

definition one_hot :: "nat \<Rightarrow> nat \<Rightarrow> real list" where
  "one_hot n j = map (\<lambda>k. if k = j then 1 else 0) [0..<n]"

definition scale :: "real \<Rightarrow> matrix \<Rightarrow> matrix" where
  "scale c M = map (map ((*) c)) M"

section \<open>The notebook up to the reduced test set\<close>

text \<open>
  The variables that cells 5 to 17 assign. \<open>rp.components_\<close> does not exist before
  \<open>rp.fit\<close>; \<open>np_rng\<close> is the state of the random generator that the fit draws from.
\<close>

record 'g notebook =
  np_rng :: 'g
  nb_tfidf :: matrix
  nb_p :: nat
  nb_n :: nat
  nb_m :: int
  rp_components :: "matrix option"
  nb_M_prime :: matrix
  nb_tfidf_test :: matrix
  nb_M_prime_test :: matrix

text \<open>
  \<open>SparseRandomProjection(n_components=m, density=density).fit(tfidf)\<close> belongs to
  scikit-learn: it is a parameter, a function of the generator state, the number of
  components, the number of features and the density that returns the matrix and the
  next generator state, or raises.
\<close>

type_synonym 'g fitter = "'g \<Rightarrow> int \<Rightarrow> nat \<Rightarrow> float64 \<Rightarrow> error + (matrix \<times> 'g)"

text \<open>Cell 5, after the vectorizer has produced \<open>tfidf\<close>: \<open>p=tfidf.shape[0]\<close>, \<open>n=tfidf.shape[1]\<close>.\<close>

definition cell5 :: "matrix \<Rightarrow> 'g notebook \<Rightarrow> error + 'g notebook" where
  "cell5 M s = Inr (s\<lparr>nb_tfidf := M, nb_p := nrows M, nb_n := ncols M\<rparr>)"

text \<open>Cell 7: \<open>error=0.1\<close>, then \<open>m\<close>.\<close>

definition cell7 :: "fpu \<Rightarrow> 'g notebook \<Rightarrow> error + 'g notebook" where
  "cell7 F s =
     (case compute_m F (nb_p s) cell7_error of
        Inl e \<Rightarrow> Inl e
      | Inr k \<Rightarrow> Inr (s\<lparr>nb_m := k\<rparr>))"

text \<open>Cell 8: \<open>density=1/np.sqrt(n)\<close>, then the fit.\<close>

definition density_of :: "fpu \<Rightarrow> nat \<Rightarrow> float64" where
  "density_of F n = float_div F (Fin 1) (f_sqrt F n)"

definition cell8 :: "fpu \<Rightarrow> 'g fitter \<Rightarrow> 'g notebook \<Rightarrow> error + 'g notebook" where
  "cell8 F fit s =
     (case fit (np_rng s) (nb_m s) (ncols (nb_tfidf s)) (density_of F (nb_n s)) of
        Inl e \<Rightarrow> Inl e
      | Inr (R, g) \<Rightarrow> Inr (s\<lparr>rp_components := Some R, np_rng := g\<rparr>))"

text \<open>Cells 11 and 12. Reading \<open>rp.components_\<close> before a fit raises.\<close>

definition cell11 :: "'g notebook \<Rightarrow> error + 'g notebook" where
  "cell11 s =
     (case rp_components s of
        None \<Rightarrow> Inl AttributeError
      | Some R \<Rightarrow>
          (case project R (nb_tfidf s) of
             Inl e \<Rightarrow> Inl e
           | Inr P \<Rightarrow> Inr (s\<lparr>nb_M_prime := P\<rparr>)))"

text \<open>Cell 16, after the vectorizer has transformed the test articles; it reassigns \<open>p\<close> and \<open>n\<close>.\<close>

definition cell16 :: "matrix \<Rightarrow> 'g notebook \<Rightarrow> error + 'g notebook" where
  "cell16 M s = Inr (s\<lparr>nb_tfidf_test := M, nb_p := nrows M, nb_n := ncols M\<rparr>)"

text \<open>Cell 17.\<close>

definition cell17 :: "'g notebook \<Rightarrow> error + 'g notebook" where
  "cell17 s =
     (case rp_components s of
        None \<Rightarrow> Inl AttributeError
      | Some R \<Rightarrow>
          (case project R (nb_tfidf_test s) of
             Inl e \<Rightarrow> Inl e
           | Inr P \<Rightarrow> Inr (s\<lparr>nb_M_prime_test := P\<rparr>)))"

text \<open>
  Cells run in order; an exception stops the run. The lines that only display a value
  assign nothing and are not part of the run below; among them the two norm checks
  \<open>M_prime[3]\<close> (cell 13) and \<open>M_prime_test[3]\<close> (cell 17) read the fourth row and so
  raise \<open>IndexError\<close> on fewer than four documents. A matrix without rows carries no
  column count in this representation, so an empty test set is not covered either.
\<close>

fun run_cells :: "('s \<Rightarrow> error + 's) list \<Rightarrow> 's \<Rightarrow> error + 's" where
  "run_cells [] s = Inr s"
| "run_cells (c # cs) s = (case c s of Inl e \<Rightarrow> Inl e | Inr s' \<Rightarrow> run_cells cs s')"

definition fresh :: "'g \<Rightarrow> 'g notebook" where
  "fresh g = \<lparr>np_rng = g, nb_tfidf = [], nb_p = 0, nb_n = 0, nb_m = 0,
     rp_components = None, nb_M_prime = [], nb_tfidf_test = [], nb_M_prime_test = []\<rparr>"

definition run_projection ::
  "fpu \<Rightarrow> 'g fitter \<Rightarrow> matrix \<Rightarrow> matrix \<Rightarrow> 'g \<Rightarrow> error + 'g notebook" where
  "run_projection F fit M Mtest g =
     run_cells [cell5 M, cell7 F, cell8 F fit, cell11, cell16 Mtest, cell17] (fresh g)"

section \<open>Batches\<close>

text \<open>
  \<^verbatim>\<open>
  def next_batch(num, data, labels):
      idx = np.arange(0 , len(data))
      np.random.shuffle(idx)
      idx = idx[:num]
      data_shuffle = [data[i] for i in idx]
      labels_shuffle = [labels[i] for i in idx]
      return np.asarray(data_shuffle), np.asarray(labels_shuffle)
  \<close>
  \<open>np.random.shuffle\<close> belongs to numpy: it is a parameter that maps the generator
  state and the array to the shuffled array and the next state.
\<close>

type_synonym 'g shuffler = "'g \<Rightarrow> nat list \<Rightarrow> nat list \<times> 'g"

text \<open>\<open>xs[:num]\<close>: a negative bound counts from the end.\<close>

definition slice_to :: "int \<Rightarrow> 'a list \<Rightarrow> 'a list" where
  "slice_to num xs =
     (if 0 \<le> num then take (nat num) xs else take (length xs - nat (- num)) xs)"

text \<open>\<open>xs[i]\<close> for an index that is not negative.\<close>

definition item :: "'a list \<Rightarrow> nat \<Rightarrow> error + 'a" where
  "item xs i = (if i < length xs then Inr (xs ! i) else Inl IndexError)"

text \<open>\<open>[f(i) for i in idx]\<close>, stopping at the first exception.\<close>

fun comprehension :: "('i \<Rightarrow> error + 'a) \<Rightarrow> 'i list \<Rightarrow> error + 'a list" where
  "comprehension f [] = Inr []"
| "comprehension f (i # is) =
     (case f i of
        Inl e \<Rightarrow> Inl e
      | Inr x \<Rightarrow> (case comprehension f is of Inl e \<Rightarrow> Inl e | Inr xs \<Rightarrow> Inr (x # xs)))"


text \<open>The value of \<open>idx\<close> after the slice.\<close>

definition batch_idx :: "'g shuffler \<Rightarrow> int \<Rightarrow> nat \<Rightarrow> 'g \<Rightarrow> nat list" where
  "batch_idx shuffle num len g = slice_to num (fst (shuffle g [0..<len]))"

definition next_batch ::
  "'g shuffler \<Rightarrow> int \<Rightarrow> 'a list \<Rightarrow> 'b list \<Rightarrow> 'g \<Rightarrow> (error + ('a list \<times> 'b list)) \<times> 'g" where
  "next_batch shuffle num data labels g =
     (let idx = batch_idx shuffle num (length data) g;
          g' = snd (shuffle g [0..<length data])
      in (case comprehension (item data) idx of
            Inl e \<Rightarrow> (Inl e, g')
          | Inr data_shuffle \<Rightarrow>
              (case comprehension (item labels) idx of
                 Inl e \<Rightarrow> (Inl e, g')
               | Inr labels_shuffle \<Rightarrow> (Inr (data_shuffle, labels_shuffle), g'))))"

section \<open>The two classifiers\<close>

text \<open>
  The parameters that cells 20 and 21 set before they build the network. The number of
  inputs is read from the data: \<open>n_input = M_prime.shape[1]\<close> in cell 20 and
  \<open>n_input = tfidf.shape[1]\<close> in cell 21.
\<close>

record hyper =
  logs_path :: string
  learning_rate :: real
  training_epochs :: nat
  batch_size :: nat
  display_step :: nat
  hidden_units :: nat
  n_input :: nat
  n_classes :: nat

definition cell20_params :: "matrix \<Rightarrow> hyper" where
  "cell20_params M_prime = \<lparr>logs_path = ''log_dir'', learning_rate = 1 / 100,
     training_epochs = 12, batch_size = 256, display_step = 1, hidden_units = 30,
     n_input = ncols M_prime, n_classes = 20\<rparr>"

definition cell21_params :: "matrix \<Rightarrow> hyper" where
  "cell21_params tfidf = \<lparr>logs_path = ''log_dir_tfidf'', learning_rate = 1 / 100,
     training_epochs = 12, batch_size = 256, display_step = 1, hidden_units = 5,
     n_input = ncols tfidf, n_classes = 20\<rparr>"





text \<open>\<open>for i in range(k): body\<close> over a state, stopping at the first exception.\<close>

fun for_each :: "'i list \<Rightarrow> ('i \<Rightarrow> 's \<Rightarrow> error + 's) \<Rightarrow> 's \<Rightarrow> error + 's" where
  "for_each [] body s = Inr s"
| "for_each (i # is) body s =
     (case body i s of Inl e \<Rightarrow> Inl e | Inr s' \<Rightarrow> for_each is body s')"







section \<open>Properties\<close>

subsection \<open>Doubles and the assumptions on the arithmetic\<close>

lemma dyadic_split:
  fixes m :: int
  assumes "a \<le> N"
  shows "of_int m / (2::real) ^ a = of_int m * 2 ^ (N - a) / 2 ^ N"
proof -
  have "(2::real) ^ N = 2 ^ (N - a) * 2 ^ a"
    using assms by (simp add: power_add [symmetric])
  then show ?thesis by simp
qed

lemma scaled_split:
  fixes m :: int
  shows "of_int m * (2::real) ^ b = of_int m * 2 ^ (N + b) / 2 ^ N"
  by (simp add: power_add)

lemma is_double_dyadic:
  assumes "\<bar>m\<bar> < 2 ^ 53" and "a \<le> 1074"
  shows "is_double (of_int m / 2 ^ a)"
proof -
  have "of_int m / (2::real) ^ a = of_int m * 2 ^ (1074 - a) / 2 ^ 1074"
    using assms(2) by (rule dyadic_split)
  moreover have "1074 - a \<le> 2045" by simp
  ultimately show ?thesis
    unfolding is_double_def using assms(1) by blast
qed

lemma is_double_scaled:
  assumes "\<bar>m\<bar> < 2 ^ 53" and "b \<le> 971"
  shows "is_double (of_int m * 2 ^ b)"
proof -
  have "of_int m * (2::real) ^ b = of_int m * 2 ^ (1074 + b) / 2 ^ 1074"
    by (rule scaled_split)
  moreover have "1074 + b \<le> 2045" using assms(2) by simp
  ultimately show ?thesis
    unfolding is_double_def using assms(1) by blast
qed

lemma is_double_0: "is_double 0"
  using is_double_dyadic [of 0 0] by simp

lemma ieee_exact: "ieee exact"
  unfolding ieee_def exact_def by auto

lemma ieee_pow2:
  assumes "ieee F" and "1 / 2 ^ 500 \<le> \<bar>x\<bar>" and "\<bar>x\<bar> \<le> 2 ^ 500"
  obtains y where "f_pow2 F x = Some y" and "\<bar>y - x ^ 2\<bar> \<le> x ^ 2 / 2 ^ 40"
  using assms unfolding ieee_def by blast

lemma ieee_log:
  assumes "ieee F" and "0 < p" and "p < 2 ^ 64"
  obtains y where "f_log F p = Fin y" and "\<bar>y - ln (real p)\<bar> \<le> 1 / 2 ^ 40"
    and "p = 1 \<Longrightarrow> y = 0"
  using assms unfolding ieee_def by blast

lemma ieee_div:
  assumes "ieee F" and "d \<noteq> 0" and "is_double lo" and "is_double hi"
    and "lo \<le> a / d" and "a / d \<le> hi"
  obtains q where "f_div F a d = Fin q" and "lo \<le> q" and "q \<le> hi"
  using assms unfolding ieee_def by blast

lemma ln_2_bounds: "1 / 2 \<le> ln (2::real) \<and> ln (2::real) \<le> 3 / 4"
proof
  have "exp (1 / 2 :: real) ^ 2 = exp 1"
    by (simp add: exp_double [symmetric])
  also have "\<dots> \<le> 3" by (rule exp_le)
  finally have "exp (1 / 2 :: real) ^ 2 \<le> 2 ^ 2" by simp
  then have "exp (1 / 2 :: real) \<le> 2"
    by (rule power2_le_imp_le) simp
  then show "1 / 2 \<le> ln (2::real)"
    using ln_ge_iff [of "2::real" "1 / 2"] by simp
next
  have "(2::real) \<le> 1 + 3 / 4 + (3 / 4)\<^sup>2 / 2" by (simp add: power2_eq_square)
  also have "\<dots> \<le> exp (3 / 4)" by (rule exp_lower_Taylor_quadratic) simp
  finally have "exp (ln (2::real)) \<le> exp (3 / 4)" by simp
  then show "ln (2::real) \<le> 3 / 4" by (simp only: exp_le_cancel_iff)
qed

lemma ln_nat_bounds:
  assumes "0 < p" and "p < 2 ^ 64"
  shows "0 \<le> ln (real p)" and "ln (real p) \<le> 64"
proof -
  show "0 \<le> ln (real p)" using assms(1) by simp
  have "real p \<le> 2 ^ 64" using assms(2)
    by (metis less_imp_le of_nat_le_iff of_nat_numeral of_nat_power)
  then have "ln (real p) \<le> ln (2 ^ 64 :: real)" using assms(1) by simp
  also have "\<dots> = real 64 * ln (2::real)" by (rule ln_realpow)
  also have "\<dots> \<le> 64" using ln_2_bounds by simp
  finally show "ln (real p) \<le> 64" .
qed

subsection \<open>The quotient that \<open>int\<close> receives\<close>

lemma within:
  fixes y v t :: real
  assumes "\<bar>y - v\<bar> \<le> t"
  shows "v - t \<le> y" and "y \<le> v + t"
  using assms by (simp_all add: abs_le_iff)

lemma quotient_parts:
  assumes F: "ieee F" and p: "0 < p" "p < 2 ^ 64"
    and err: "1 / 2 ^ 500 \<le> \<bar>err\<bar>" "\<bar>err\<bar> \<le> 2 ^ 500"
  obtains a y where "\<bar>a - ln (real p)\<bar> \<le> 1 / 2 ^ 40" and "p = 1 \<Longrightarrow> a = 0"
    and "\<bar>y - err ^ 2\<bar> \<le> err ^ 2 / 2 ^ 40" and "0 < y"
    and "quotient F p err = Inr (f_div F a y)"
proof -
  obtain a where a: "f_log F p = Fin a" "\<bar>a - ln (real p)\<bar> \<le> 1 / 2 ^ 40" "p = 1 \<Longrightarrow> a = 0"
    using ieee_log [OF F p] by blast
  obtain y where y: "f_pow2 F err = Some y" "\<bar>y - err ^ 2\<bar> \<le> err ^ 2 / 2 ^ 40"
    using ieee_pow2 [OF F err] by blast
  have "err \<noteq> 0" using err(1) by auto
  then have sq: "0 < err ^ 2" by simp
  have "err ^ 2 / 2 ^ 40 \<le> err ^ 2 / 2" using sq by (simp add: field_simps)
  then have "err ^ 2 / 2 \<le> y" using within(1) [OF y(2)] by linarith
  then have pos: "0 < y" using sq by linarith
  have "quotient F p err = Inr (f_div F a y)"
    using p a(1) y(1) pos by (simp add: quotient_def np_log_def)
  then show ?thesis using a(2,3) y(2) pos that by blast
qed

lemma quotient_bracket:
  assumes F: "ieee F" and p: "0 < p" "p < 2 ^ 64"
    and err: "1 / 2 ^ 500 \<le> \<bar>err\<bar>" "\<bar>err\<bar> \<le> 2 ^ 500"
    and lo: "is_double lo" and hi: "is_double hi"
    and enclosed: "\<And>a y. \<bar>a - ln (real p)\<bar> \<le> 1 / 2 ^ 40 \<Longrightarrow> (p = 1 \<Longrightarrow> a = 0)
         \<Longrightarrow> \<bar>y - err ^ 2\<bar> \<le> err ^ 2 / 2 ^ 40 \<Longrightarrow> 0 < y \<Longrightarrow> lo \<le> a / y \<and> a / y \<le> hi"
  shows "\<exists>q. quotient F p err = Inr (Fin q) \<and> lo \<le> q \<and> q \<le> hi"
proof -
  obtain a y where ay: "\<bar>a - ln (real p)\<bar> \<le> 1 / 2 ^ 40" "p = 1 \<Longrightarrow> a = 0"
    "\<bar>y - err ^ 2\<bar> \<le> err ^ 2 / 2 ^ 40" "0 < y" "quotient F p err = Inr (f_div F a y)"
    using quotient_parts [OF F p err] by blast
  have b: "lo \<le> a / y" "a / y \<le> hi" using enclosed [OF ay(1,2,3,4)] by simp_all
  have "y \<noteq> 0" using ay(4) by simp
  then obtain q where "f_div F a y = Fin q" "lo \<le> q" "q \<le> hi"
    using ieee_div [OF F _ lo hi b] by blast
  then show ?thesis using ay(5) by simp
qed

lemma ratio_upper:
  fixes a y A Y :: real
  assumes "0 \<le> a" "a \<le> A" "0 < Y" "1 / Y \<le> y"
  shows "a / y \<le> A * Y"
proof -
  have y: "0 < y" using assms(3,4) by (meson divide_pos_pos less_le_trans zero_less_one)
  have "1 \<le> y * Y" using assms(3,4) by (simp add: field_simps)
  then have "a \<le> a * (y * Y)" using assms(1) by (simp add: mult_le_cancel_left1)
  also have "\<dots> \<le> A * (y * Y)" using assms(2,3) y by (simp add: mult_right_mono)
  finally have "a \<le> (A * Y) * y" by (simp add: mult_ac)
  then show ?thesis using y by (simp add: pos_divide_le_eq)
qed

lemma quotient_finite:
  assumes F: "ieee F" and p: "0 < p" "p < 2 ^ 64"
    and err: "1 / 2 ^ 500 \<le> \<bar>err\<bar>" "\<bar>err\<bar> \<le> 2 ^ 500"
  shows "\<exists>q. quotient F p err = Inr (Fin q) \<and> 0 \<le> q \<and> (p = 1 \<longrightarrow> q = 0)"
proof (cases "p = 1")
  case True
  have "\<exists>q. quotient F p err = Inr (Fin q) \<and> 0 \<le> q \<and> q \<le> 0"
    using True is_double_0 by (intro quotient_bracket [OF F p err]) auto
  then show ?thesis by auto
next
  case False
  then have p2: "2 \<le> real p" using p(1) by simp
  have hi: "is_double (of_int (2 ^ 37) * 2 ^ 971)"
    by (rule is_double_scaled) simp_all
  have enc: "0 \<le> a / y \<and> a / y \<le> of_int (2 ^ 37) * 2 ^ 971"
    if a: "\<bar>a - ln (real p)\<bar> \<le> 1 / 2 ^ 40" and y: "\<bar>y - err ^ 2\<bar> \<le> err ^ 2 / 2 ^ 40" "0 < y"
    for a y :: real
  proof -
    have "ln 2 \<le> ln (real p)" using p2 by simp
    then have "1 / 2 \<le> ln (real p)" using ln_2_bounds by linarith
    moreover have "(1::real) / 2 ^ 40 \<le> 1 / 2" by simp
    ultimately have a0: "0 \<le> a" using within(1) [OF a] by linarith
    have "ln (real p) \<le> 64" by (rule ln_nat_bounds(2) [OF p])
    moreover have "(1::real) / 2 ^ 40 \<le> 1" by simp
    ultimately have a65: "a \<le> 2 ^ 7" using within(2) [OF a] by simp
    have "(1 / 2 ^ 500) ^ 2 \<le> \<bar>err\<bar> ^ 2"
      using err(1) by (intro power_mono) simp_all
    then have sq: "1 / 2 ^ 1000 \<le> err ^ 2" by (simp add: power_divide)
    have "err ^ 2 / 2 ^ 40 \<le> err ^ 2 / 2" by (simp add: field_simps)
    then have "err ^ 2 / 2 \<le> y" using within(1) [OF y(1)] by linarith
    then have ylow: "1 / 2 ^ 1001 \<le> y" using sq by simp
    have "a / y \<le> 2 ^ 7 * 2 ^ 1001"
      by (rule ratio_upper [OF a0 a65 _ ylow]) simp
    also have "(2::real) ^ 7 * 2 ^ 1001 = of_int (2 ^ 37) * 2 ^ 971" by simp
    finally show ?thesis using a0 y(2) by simp
  qed
  have "\<exists>q. quotient F p err = Inr (Fin q) \<and> 0 \<le> q \<and> q \<le> of_int (2 ^ 37) * 2 ^ 971"
    using is_double_0 hi enc by (intro quotient_bracket [OF F p err]) auto
  then show ?thesis using False by auto
qed

subsection \<open>Bounds on the logarithm of 11314\<close>

lemma exp_upper: "exp (9331 / 10000 :: real) \<le> 2543 / 1000"
proof -
  obtain t :: real where t: "\<bar>t\<bar> \<le> \<bar>9331 / 10000\<bar>"
    and e: "exp (9331 / 10000 :: real) =
        (\<Sum>m<8. ((9331 / 10000) ^ m) / fact m) + (exp t / fact 8) * (9331 / 10000) ^ 8"
    using Maclaurin_exp_le [of "9331 / 10000" 8] by blast
  have "t \<le> 1" using t by simp
  then have "exp t \<le> exp 1" by simp
  then have t3: "exp t \<le> 3" using exp_le by linarith
  have "(exp t / fact 8) * (9331 / 10000) ^ 8 \<le> (3 / fact 8) * (9331 / 10000 :: real) ^ 8"
    by (intro mult_right_mono divide_right_mono t3) simp_all
  then have "exp (9331 / 10000 :: real) \<le>
      (\<Sum>m<8. ((9331 / 10000) ^ m) / fact m) + (3 / fact 8) * (9331 / 10000) ^ 8"
    using e by linarith
  also have "\<dots> \<le> 2543 / 1000"
    by (simp add: lessThan_nat_numeral lessThan_Suc fact_numeral power_divide)
  finally show ?thesis .
qed

lemma exp_lower: "25435 / 10000 \<le> exp (9339 / 10000 :: real)"
proof -
  obtain t :: real where
    e: "exp (9339 / 10000 :: real) =
        (\<Sum>m<8. ((9339 / 10000) ^ m) / fact m) + (exp t / fact 8) * (9339 / 10000) ^ 8"
    using Maclaurin_exp_le [of "9339 / 10000" 8] by blast
  have "0 \<le> (exp t / fact 8) * (9339 / 10000 :: real) ^ 8" by simp
  then have "(\<Sum>m<8. ((9339 / 10000) ^ m) / fact m) \<le> exp (9339 / 10000 :: real)"
    using e by linarith
  moreover have "25435 / 10000 \<le> (\<Sum>m<8. ((9339 / 10000 :: real) ^ m) / fact m)"
    by (simp add: lessThan_nat_numeral lessThan_Suc fact_numeral power_divide)
  ultimately show ?thesis by linarith
qed

lemma ln_11314_lower: "9331 / 1000 \<le> ln (11314 :: real)"
proof -
  have "exp (9331 / 1000 :: real) = exp (of_nat 10 * (9331 / 10000))" by simp
  also have "\<dots> = exp (9331 / 10000) ^ 10" by (rule exp_of_nat_mult)
  also have "\<dots> \<le> (2543 / 1000) ^ 10"
    by (rule power_mono [OF exp_upper]) simp
  also have "\<dots> \<le> 11314" by (simp add: power_divide)
  finally have "exp (9331 / 1000 :: real) \<le> 11314" .
  then show ?thesis using ln_ge_iff [of "11314::real" "9331 / 1000"] by linarith
qed

lemma ln_11314_upper: "ln (11314 :: real) \<le> 9339 / 1000"
proof -
  have "(11314::real) \<le> (25435 / 10000) ^ 10" by (simp add: power_divide)
  also have "\<dots> \<le> exp (9339 / 10000) ^ 10"
    by (rule power_mono [OF exp_lower]) simp
  also have "\<dots> = exp (of_nat 10 * (9339 / 10000))" by (rule exp_of_nat_mult [symmetric])
  also have "\<dots> = exp (9339 / 1000 :: real)" by simp
  finally have "exp (ln (11314::real)) \<le> exp (9339 / 1000)" by simp
  then show ?thesis by (simp only: exp_le_cancel_iff)
qed

lemma py_int_floor: "0 \<le> q \<Longrightarrow> py_int (Fin q) = Inr \<lfloor>q\<rfloor>"
  by simp

lemma compute_m_of_quotient:
  "quotient F p err = Inr (Fin q) \<Longrightarrow> 0 \<le> q \<Longrightarrow> compute_m F p err = Inr (\<lfloor>q\<rfloor> + 1)"
  by (simp add: compute_m_def)

lemma compute_m_regular:
  assumes "ieee F" and "0 < p" and "p < 2 ^ 64"
    and "1 / 2 ^ 500 \<le> \<bar>err\<bar>" and "\<bar>err\<bar> \<le> 2 ^ 500"
  shows "\<exists>m. compute_m F p err = Inr m \<and> 1 \<le> m \<and> (p = 1 \<longrightarrow> m = 1)"
proof -
  obtain q where q: "quotient F p err = Inr (Fin q)" "0 \<le> q" "p = 1 \<longrightarrow> q = 0"
    using quotient_finite [OF assms] by blast
  have "0 \<le> \<lfloor>q\<rfloor>" using q(2) by simp
  then show ?thesis using compute_m_of_quotient [OF q(1,2)] q(3) by auto
qed

lemma compute_m_two_documents:
  assumes F: "ieee F"
  shows "compute_m F 2 1 = Inr 1"
proof -
  have lo: "is_double (of_int 1 / 2 ^ 2)" and hi: "is_double (of_int 7 / 2 ^ 3)"
    by (rule is_double_dyadic; simp)+
  have enc: "of_int 1 / 2 ^ 2 \<le> a / y \<and> a / y \<le> of_int 7 / 2 ^ 3"
    if a: "\<bar>a - ln (real 2)\<bar> \<le> 1 / 2 ^ 40" and y: "\<bar>y - 1 ^ 2\<bar> \<le> 1 ^ 2 / 2 ^ 40" "0 < y"
    for a y :: real
  proof -
    have t: "(1::real) / 2 ^ 40 \<le> 1 / 16" by simp
    have a1: "3 / 8 \<le> a" and a2: "a \<le> 13 / 16"
      using within [OF a] ln_2_bounds t by simp_all
    have y1: "15 / 16 \<le> y" and y2: "y \<le> 3 / 2"
      using within [OF y(1)] t by simp_all
    have "1 / 4 * y \<le> a" using a1 y2 by simp
    then have l: "1 / 4 \<le> a / y" using y(2) by (simp add: pos_le_divide_eq)
    have "a \<le> 7 / 8 * y" using a2 y1 by simp
    then have u: "a / y \<le> 7 / 8" using y(2) by (simp add: pos_divide_le_eq)
    show ?thesis using l u by simp
  qed
  have "\<exists>q. quotient F 2 1 = Inr (Fin q) \<and> of_int 1 / 2 ^ 2 \<le> q \<and> q \<le> of_int 7 / 2 ^ 3"
    using lo hi enc by (intro quotient_bracket [OF F]) auto
  then obtain q where q: "quotient F 2 1 = Inr (Fin q)" "1 / 4 \<le> q" "q \<le> 7 / 8"
    by auto
  have "\<lfloor>q\<rfloor> = 0" using q(2,3) by (simp add: floor_eq_iff)
  then show ?thesis using compute_m_of_quotient [OF q(1)] q(2) by simp
qed

subsection \<open>The dimensionality\<close>

text \<open>
  Claim C1, as the code has it. Let the arithmetic meet the assumptions above, let
  \<open>1 < p < 2\<^sup>6\<^sup>4\<close> be the document count and \<open>2\<^sup>-\<^sup>5\<^sup>0\<^sup>0 \<le> \<epsilon> \<le> 2\<^sup>5\<^sup>0\<^sup>0\<close> the error bound.
  The code computes a finite double \<open>q \<ge> 0\<close> for \<open>np.log(p)/(error**2)\<close> and returns
  \<open>m = \<lfloor>q\<rfloor> + 1\<close>. This \<open>m\<close> lies above \<open>q\<close> and is the least integer strictly above
  \<open>q\<close>; it is the ceiling of \<open>q\<close> when \<open>q\<close> is not an integer, and the ceiling plus one
  only when it is: rounding down and adding one is the whole margin. The double \<open>q\<close> is
  \<open>ln p / \<epsilon>\<^sup>2\<close> up to rounding: any two doubles that enclose the exact quotient, widened
  by the tolerances of the logarithm and the square, enclose \<open>q\<close>. So \<open>m\<close> is compared
  with \<open>q\<close>, and exceeds \<open>ln p / \<epsilon>\<^sup>2\<close> itself only as far as that rounding allows.
\<close>

theorem compute_m_floor_plus_one:
  assumes F: "ieee F" and p: "1 < p" "p < 2 ^ 64"
    and err: "1 / 2 ^ 500 \<le> err" "err \<le> 2 ^ 500"
  shows "\<exists>q m. quotient F p err = Inr (Fin q)
           \<and> 0 \<le> q
           \<and> (\<forall>lo hi. is_double lo \<and> is_double hi
                 \<and> lo \<le> (ln (real p) - 1 / 2 ^ 40) / (err ^ 2 + err ^ 2 / 2 ^ 40)
                 \<and> (ln (real p) + 1 / 2 ^ 40) / (err ^ 2 - err ^ 2 / 2 ^ 40) \<le> hi
                 \<longrightarrow> lo \<le> q \<and> q \<le> hi)
           \<and> compute_m F p err = Inr m
           \<and> m = \<lfloor>q\<rfloor> + 1
           \<and> q < of_int m
           \<and> (\<forall>k::int. q < of_int k \<longrightarrow> m \<le> k)
           \<and> m = (if q \<in> \<int> then \<lceil>q\<rceil> + 1 else \<lceil>q\<rceil>)"
proof -
  have p0: "0 < p" using p(1) by simp
  have r: "1 / 2 ^ 500 \<le> \<bar>err\<bar>" "\<bar>err\<bar> \<le> 2 ^ 500" using err by simp_all
  obtain a y where ay: "\<bar>a - ln (real p)\<bar> \<le> 1 / 2 ^ 40"
    "\<bar>y - err ^ 2\<bar> \<le> err ^ 2 / 2 ^ 40" "0 < y" "quotient F p err = Inr (f_div F a y)"
    using quotient_parts [OF F p0 p(2) r] by blast
  obtain q where q: "quotient F p err = Inr (Fin q)" "0 \<le> q"
    using quotient_finite [OF F p0 p(2) r] by blast
  have fq: "f_div F a y = Fin q" using ay(4) q(1) by simp
  have "ln 2 \<le> ln (real p)" using p(1) by simp
  then have lnp: "1 / 2 \<le> ln (real p)" using ln_2_bounds by linarith
  have "(1::real) / 2 ^ 40 \<le> 1 / 2" by simp
  then have alo: "0 \<le> ln (real p) - 1 / 2 ^ 40" using lnp by linarith
  have a0: "0 \<le> a" using within(1) [OF ay(1)] alo by linarith
  have bracket: "lo \<le> q \<and> q \<le> hi"
    if "is_double lo \<and> is_double hi
         \<and> lo \<le> (ln (real p) - 1 / 2 ^ 40) / (err ^ 2 + err ^ 2 / 2 ^ 40)
         \<and> (ln (real p) + 1 / 2 ^ 40) / (err ^ 2 - err ^ 2 / 2 ^ 40) \<le> hi" for lo hi
  proof -
    have "err \<noteq> 0" using err(1) by auto
    then have sq: "0 < err ^ 2" by simp
    have "err ^ 2 / 2 ^ 40 \<le> err ^ 2 / 2" using sq by (simp add: field_simps)
    then have ylo: "0 < err ^ 2 - err ^ 2 / 2 ^ 40" using sq by linarith
    have "(ln (real p) - 1 / 2 ^ 40) / (err ^ 2 + err ^ 2 / 2 ^ 40) \<le> a / y"
      using a0 within(1) [OF ay(1)] ay(3) within(2) [OF ay(2)] by (rule frac_le)
    moreover have "a / y \<le> (ln (real p) + 1 / 2 ^ 40) / (err ^ 2 - err ^ 2 / 2 ^ 40)"
    proof (rule frac_le)
      show "0 \<le> ln (real p) + 1 / 2 ^ 40" using alo by simp
      show "a \<le> ln (real p) + 1 / 2 ^ 40" by (rule within(2) [OF ay(1)])
      show "0 < err ^ 2 - err ^ 2 / 2 ^ 40" by (rule ylo)
      show "err ^ 2 - err ^ 2 / 2 ^ 40 \<le> y" by (rule within(1) [OF ay(2)])
    qed
    ultimately have l: "lo \<le> a / y" and h: "a / y \<le> hi" using that by linarith+
    have d: "is_double lo" "is_double hi" using that by simp_all
    have ne: "y \<noteq> 0" using ay(3) by simp
    obtain q' where "f_div F a y = Fin q'" "lo \<le> q'" "q' \<le> hi"
      using ieee_div [OF F ne d l h] by blast
    then show ?thesis using fq by simp
  qed
  define m where "m = \<lfloor>q\<rfloor> + 1"
  have run: "compute_m F p err = Inr m"
    using compute_m_of_quotient [OF q] by (simp add: m_def)
  have above: "q < of_int m"
    unfolding m_def by linarith
  have least: "m \<le> k" if "q < of_int k" for k :: int
  proof -
    have "\<lfloor>q\<rfloor> < k" using that by (simp add: floor_less_iff)
    then show ?thesis unfolding m_def by simp
  qed
  have ceil: "m = (if q \<in> \<int> then \<lceil>q\<rceil> + 1 else \<lceil>q\<rceil>)"
  proof (cases "q \<in> \<int>")
    case True
    then obtain z :: int where "q = of_int z" by (auto elim: Ints_cases)
    then show ?thesis using True by (simp add: m_def)
  next
    case False
    then have "q \<noteq> of_int \<lfloor>q\<rfloor>" by (metis Ints_of_int)
    then show ?thesis using False by (simp add: m_def ceiling_altdef)
  qed
  show ?thesis
    using q bracket run above least ceil unfolding m_def by blast
qed

theorem compute_m_floor_plus_one_witness:
  "ieee exact \<and> (1::nat) < 2 \<and> (2::nat) < 2 ^ 64 \<and> (1::real) / 2 ^ 500 \<le> 1 \<and> (1::real) \<le> 2 ^ 500
   \<and> (\<exists>q m. quotient exact 2 1 = Inr (Fin q) \<and> compute_m exact 2 1 = Inr m
          \<and> m = \<lfloor>q\<rfloor> + 1 \<and> q < of_int m)"
proof -
  have h: "(1::nat) < 2" "(2::nat) < 2 ^ 64" "(1::real) / 2 ^ 500 \<le> 1" "(1::real) \<le> 2 ^ 500"
    by simp_all
  show ?thesis
    using compute_m_floor_plus_one [OF ieee_exact h] ieee_exact h by blast
qed

text \<open>
  With two documents and \<open>\<epsilon> = 1\<close> the quotient is \<open>ln 2\<close>, between 0 and 1: the code
  returns 1, whereas the ceiling plus one is 2. (\<open>compute_m_two_documents\<close> shows the
  result 1 for every arithmetic that meets the assumptions.)
\<close>

theorem compute_m_not_ceiling_plus_one:
  "compute_m exact 2 1 \<noteq> Inr (\<lceil>ln (real 2) / 1 ^ 2\<rceil> + 1)"
proof -
  have "\<lceil>ln (2::real)\<rceil> = 1" using ln_2_bounds by (simp add: ceiling_eq_iff)
  then show ?thesis
    using compute_m_two_documents [OF ieee_exact] by simp
qed

text \<open>
  Claim C3, as the code has it. The computation reads \<open>p\<close> and \<open>\<epsilon>\<close> only, and has no
  check of its own.
  \<^item> With no document, it raises \<open>OverflowError\<close>: \<open>int\<close> meets an infinity, or the
    square overflows.
  \<^item> With one document and \<open>2\<^sup>-\<^sup>5\<^sup>0\<^sup>0 \<le> |\<epsilon>| \<le> 2\<^sup>5\<^sup>0\<^sup>0\<close> it returns \<open>m = 1\<close> and raises
    nothing; for every \<open>1 \<le> p < 2\<^sup>6\<^sup>4\<close> and such \<open>\<epsilon>\<close> it returns some \<open>m \<ge> 1\<close>.
  \<^item> When \<open>error**2\<close> is zero (\<open>\<epsilon>\<close> is zero, or so small that its square underflows),
    one document gives \<open>0/0 = nan\<close> and \<open>ValueError\<close>, and \<open>2 \<le> p < 2\<^sup>6\<^sup>4\<close> documents
    give \<open>inf\<close> and \<open>OverflowError\<close>; when \<open>error**2\<close> overflows, \<open>OverflowError\<close>.
  \<^item> Whatever the vocabulary size \<open>n\<close> is, cell 7 raises with it exactly when it
    raises without it.
\<close>

theorem compute_m_degenerate:
  assumes F: "ieee F"
  shows "compute_m F 0 err = Inl OverflowError
       \<and> (1 / 2 ^ 500 \<le> \<bar>err\<bar> \<and> \<bar>err\<bar> \<le> 2 ^ 500 \<longrightarrow> compute_m F 1 err = Inr 1)
       \<and> (1 \<le> p \<and> p < 2 ^ 64 \<and> 1 / 2 ^ 500 \<le> \<bar>err\<bar> \<and> \<bar>err\<bar> \<le> 2 ^ 500
            \<longrightarrow> (\<exists>m. compute_m F p err = Inr m \<and> 1 \<le> m))
       \<and> (f_pow2 F err = Some 0 \<longrightarrow>
            compute_m F 1 err = Inl ValueError
            \<and> (2 \<le> p \<and> p < 2 ^ 64 \<longrightarrow> compute_m F p err = Inl OverflowError))
       \<and> (f_pow2 F err = None \<and> p < 2 ^ 64 \<longrightarrow> compute_m F p err = Inl OverflowError)
       \<and> isl (cell7 F (s\<lparr>nb_n := k\<rparr>)) = isl (cell7 F s)"
proof -
  have zero: "compute_m F 0 err = Inl OverflowError"
    by (cases "f_pow2 F err") (simp_all add: compute_m_def quotient_def np_log_def)
  have one: "compute_m F 1 err = Inr 1"
    if "1 / 2 ^ 500 \<le> \<bar>err\<bar> \<and> \<bar>err\<bar> \<le> 2 ^ 500"
    using compute_m_regular [OF F, of 1 err] that by auto
  have many: "\<exists>m. compute_m F p err = Inr m \<and> 1 \<le> m"
    if "1 \<le> p \<and> p < 2 ^ 64 \<and> 1 / 2 ^ 500 \<le> \<bar>err\<bar> \<and> \<bar>err\<bar> \<le> 2 ^ 500"
    using compute_m_regular [OF F, of p err] that by auto
  have under1: "compute_m F 1 err = Inl ValueError" if u: "f_pow2 F err = Some 0"
  proof -
    obtain a where "f_log F 1 = Fin a" "a = 0"
      using ieee_log [OF F, of 1] by auto
    then show ?thesis using u by (simp add: compute_m_def quotient_def np_log_def)
  qed
  have under2: "compute_m F p err = Inl OverflowError"
    if u: "f_pow2 F err = Some 0" and p: "2 \<le> p \<and> p < 2 ^ 64"
  proof -
    have p0: "0 < p" using p by simp
    obtain a where a: "f_log F p = Fin a" "\<bar>a - ln (real p)\<bar> \<le> 1 / 2 ^ 40"
      using ieee_log [OF F p0] p by blast
    have "ln 2 \<le> ln (real p)" using p by simp
    then have "1 / 2 \<le> ln (real p)" using ln_2_bounds by linarith
    moreover have "(1::real) / 2 ^ 40 < 1 / 2" by simp
    ultimately have "0 < a" using within(1) [OF a(2)] by linarith
    then show ?thesis using u a(1) p by (simp add: compute_m_def quotient_def np_log_def)
  qed
  have over: "compute_m F p err = Inl OverflowError" if "f_pow2 F err = None \<and> p < 2 ^ 64"
    using that by (simp add: compute_m_def quotient_def np_log_def)
  have n_unread: "isl (cell7 F (s\<lparr>nb_n := k\<rparr>)) = isl (cell7 F s)"
    by (simp add: cell7_def split: sum.splits)
  show ?thesis using zero one many under1 under2 over n_unread by blast
qed

theorem compute_m_degenerate_witness:
  "ieee exact \<and> (1::nat) \<le> 2 \<and> (2::nat) < 2 ^ 64 \<and> (1::real) / 2 ^ 500 \<le> \<bar>1\<bar> \<and> \<bar>1::real\<bar> \<le> 2 ^ 500
   \<and> (\<exists>m. compute_m exact 2 1 = Inr m \<and> 1 \<le> m)
   \<and> f_pow2 exact 0 = Some 0 \<and> compute_m exact 1 0 = Inl ValueError"
proof -
  have h: "(1::nat) \<le> 2 \<and> (2::nat) < 2 ^ 64 \<and> (1::real) / 2 ^ 500 \<le> \<bar>1\<bar> \<and> \<bar>1::real\<bar> \<le> 2 ^ 500"
    by simp
  have z: "f_pow2 exact 0 = Some 0" by (simp add: exact_def)
  have "\<exists>m. compute_m exact 2 1 = Inr m \<and> 1 \<le> m"
    using compute_m_degenerate [OF ieee_exact, where p = 2 and err = 1 and s = "fresh ()" and k = 0] h
    by blast
  moreover have "compute_m exact 1 0 = Inl ValueError"
    using compute_m_degenerate [OF ieee_exact, where p = 2 and err = 0 and s = "fresh ()" and k = 0] z
    by blast
  ultimately show ?thesis using ieee_exact h z by blast
qed

text \<open>One document, \<open>\<epsilon> = 0.1\<close>: the result is \<open>m = 1\<close>, not an error.\<close>

theorem compute_m_one_document: "compute_m exact 1 (1 / 10) = Inr 1"
  using compute_m_regular [OF ieee_exact, of 1 "1 / 10"] by auto

text \<open>
  Claim C8. With \<open>p = 11314\<close> training documents and \<open>\<epsilon> = 0.1\<close> the computed
  dimensionality is 934, for every arithmetic that meets the assumptions and every
  \<open>\<epsilon>\<close> within \<open>10\<^sup>-\<^sup>9\<close> of one tenth (the double \<open>0.1\<close> of cell 7 is one): \<open>ln 11314\<close>
  lies between 9.331 and 9.339, so the double quotient lies between 933.0625 and
  933.9375.
\<close>

theorem compute_m_reference_run:
  assumes F: "ieee F" and err: "\<bar>err - 1 / 10\<bar> \<le> 1 / 10 ^ 9"
  shows "compute_m F 11314 err = Inr 934"
proof -
  have e1: "99999999 / 10 ^ 9 \<le> err" and e2: "err \<le> 100000001 / 10 ^ 9"
    using within [OF err] by simp_all
  have epos: "0 < err" using e1 by simp
  have r1: "1 / 2 ^ 500 \<le> \<bar>err\<bar>" using e1 by simp
  have r2: "\<bar>err\<bar> \<le> 2 ^ 500" using e1 e2 by simp
  have "(99999999 / 10 ^ 9) ^ 2 \<le> err ^ 2" using e1 by (intro power_mono) simp_all
  then have s1: "9999999 / 10 ^ 9 \<le> err ^ 2" by (simp add: power_divide)
  have "err ^ 2 \<le> (100000001 / 10 ^ 9) ^ 2" using e2 epos by (intro power_mono) simp_all
  then have s2: "err ^ 2 \<le> 10000001 / 10 ^ 9" by (simp add: power_divide)
  have lo: "is_double (of_int 14929 / 2 ^ 4)" and hi: "is_double (of_int 14943 / 2 ^ 4)"
    by (rule is_double_dyadic; simp)+
  have enc: "of_int 14929 / 2 ^ 4 \<le> a / y \<and> a / y \<le> of_int 14943 / 2 ^ 4"
    if a: "\<bar>a - ln (real 11314)\<bar> \<le> 1 / 2 ^ 40" and y: "\<bar>y - err ^ 2\<bar> \<le> err ^ 2 / 2 ^ 40" "0 < y"
    for a y :: real
  proof -
    have t: "(1::real) / 2 ^ 40 \<le> 1 / 10 ^ 4" by simp
    have a1: "93309 / 10 ^ 4 \<le> a" and a2: "a \<le> 93391 / 10 ^ 4"
      using within [OF a] ln_11314_lower ln_11314_upper t by simp_all
    have d: "err ^ 2 / 2 ^ 40 \<le> 1 / 10 ^ 9" using s2 by simp
    have y1: "999999 / 10 ^ 8 \<le> y" and y2: "y \<le> 1000001 / 10 ^ 8"
      using within [OF y(1)] s1 s2 d by simp_all
    have "14929 / 16 * y \<le> a" using a1 y2 by simp
    then have l: "14929 / 16 \<le> a / y" using y(2) by (simp add: pos_le_divide_eq)
    have "a \<le> 14943 / 16 * y" using a2 y1 by simp
    then have u: "a / y \<le> 14943 / 16" using y(2) by (simp add: pos_divide_le_eq)
    show ?thesis using l u by simp
  qed
  have "\<exists>q. quotient F 11314 err = Inr (Fin q)
          \<and> of_int 14929 / 2 ^ 4 \<le> q \<and> q \<le> of_int 14943 / 2 ^ 4"
    using lo hi enc by (intro quotient_bracket [OF F _ _ r1 r2]) auto
  then obtain q where q: "quotient F 11314 err = Inr (Fin q)" "14929 / 16 \<le> q" "q \<le> 14943 / 16"
    by auto
  have "\<lfloor>q\<rfloor> = 933" using q(2,3) by (simp add: floor_eq_iff)
  then show ?thesis using compute_m_of_quotient [OF q(1)] q(2) by simp
qed

theorem compute_m_reference_run_witness:
  "ieee exact \<and> \<bar>cell7_error - 1 / 10\<bar> \<le> 1 / 10 ^ 9
   \<and> compute_m exact 11314 cell7_error = Inr 934
   \<and> compute_m exact 11314 (1 / 10) = Inr 934"
proof -
  have h: "\<bar>cell7_error - 1 / 10\<bar> \<le> 1 / 10 ^ 9"
    by (simp add: cell7_error_def)
  have t: "\<bar>(1 / 10 :: real) - 1 / 10\<bar> \<le> 1 / 10 ^ 9"
    by simp
  show ?thesis
    using compute_m_reference_run [OF ieee_exact h] compute_m_reference_run [OF ieee_exact t]
      ieee_exact h by blast
qed

subsection \<open>Projecting one vocabulary term\<close>

lemma one_hot_length: "length (one_hot n j) = n"
  by (simp add: one_hot_def)

lemma dot_one_hot:
  assumes "length r = n" and "j < n"
  shows "dot r (one_hot n j) = r ! j"
proof -
  have "dot r (one_hot n j) = (\<Sum>i = 0..<n. map2 (*) r (one_hot n j) ! i)"
    using assms by (simp add: dot_def sum_list_sum_nth one_hot_length)
  also have "\<dots> = (\<Sum>i = 0..<n. if i = j then r ! i else 0)"
    using assms by (intro sum.cong) (auto simp: one_hot_def)
  also have "\<dots> = r ! j"
    using assms by (simp add: sum.delta)
  finally show ?thesis .
qed

lemma ncols_is_matrix: "is_matrix k l M \<Longrightarrow> 0 < k \<Longrightarrow> ncols M = l"
  by (cases M) (auto simp: is_matrix_def ncols_def)

lemma mat_T_single_column: "M \<noteq> [] \<Longrightarrow> mat_T (map (\<lambda>r. [f r]) M) = [map f M]"
  by (cases M) (auto simp: mat_T_def ncols_def column_def)

lemma mat_T_single_row: "mat_T [v] = map (\<lambda>k. [v ! k]) [0..<length v]"
  by (simp add: mat_T_def ncols_def column_def)

lemma mat_T_mat_T_single_row: "v \<noteq> [] \<Longrightarrow> mat_T (mat_T [v]) = [v]"
proof -
  assume "v \<noteq> []"
  then have ne: "[0..<length v] \<noteq> []" by simp
  have "mat_T (mat_T [v]) = [map (\<lambda>k. v ! k) [0..<length v]]"
    unfolding mat_T_single_row by (rule mat_T_single_column [OF ne])
  then show ?thesis by (simp add: map_nth)
qed

lemma project_single_row:
  assumes R: "is_matrix m n R" and m: "0 < m" and v: "length v = n" and n: "0 < n"
  shows "project R [v] = Inr [map (\<lambda>r. dot r v) R]"
proof -
  have ne: "R \<noteq> []" using R m by (auto simp: is_matrix_def)
  have vne: "v \<noteq> []" using v n by auto
  have shape: "ncols R = nrows (mat_T [v])"
    using ncols_is_matrix [OF R m] v by (simp add: mat_T_single_row nrows_def)
  have "np_dot R (mat_T [v]) = Inr (map (\<lambda>r. [dot r v]) R)"
    using shape by (simp add: np_dot_def mat_T_mat_T_single_row [OF vne])
  then show ?thesis
    by (simp add: project_def mat_T_single_column [OF ne])
qed

lemma column_scale:
  assumes "is_matrix m n S" and "j < n"
  shows "column (scale c S) j = map ((*) c) (column S j)"
  using assms by (auto simp: column_def scale_def is_matrix_def list_all_iff)

lemma is_matrix_scale: "is_matrix m n (scale c S) = is_matrix m n S"
  by (simp add: is_matrix_def scale_def list_all_iff)

text \<open>
  Claim C4. Let \<open>R\<close> be an \<open>m \<times> n\<close> projection matrix with at least one row and \<open>j < n\<close>
  a vocabulary index. Projecting the one-hot document of term \<open>j\<close> with the expression
  that builds \<open>M'\<close> yields the \<open>j\<close>-th column of \<open>R\<close>. When \<open>R\<close> is \<open>\<surd>s\<close> times a matrix
  \<open>S\<close> (of signs, in the notebook), the result is \<open>\<surd>s\<close> times the \<open>j\<close>-th column of \<open>S\<close>.
\<close>

theorem project_one_hot_is_column:
  assumes "is_matrix m n R" and "0 < m" and "j < n"
  shows "project R [one_hot n j] = Inr [column R j]
         \<and> (\<forall>s S. R = scale (sqrt s) S \<longrightarrow>
               project R [one_hot n j] = Inr [map ((*) (sqrt s)) (column S j)])"
proof -
  have rows: "length r = n" if "r \<in> set R" for r
    using assms(1) that by (auto simp: is_matrix_def list_all_iff)
  have "project R [one_hot n j] = Inr [map (\<lambda>r. dot r (one_hot n j)) R]"
    using project_single_row [of m n R "one_hot n j"] assms by (simp add: one_hot_length)
  also have "map (\<lambda>r. dot r (one_hot n j)) R = column R j"
    unfolding column_def using rows assms(3) by (intro map_cong) (auto simp: dot_one_hot)
  finally have col: "project R [one_hot n j] = Inr [column R j]" .
  moreover have "project R [one_hot n j] = Inr [map ((*) (sqrt s)) (column S j)]"
    if "R = scale (sqrt s) S" for s S
  proof -
    have "is_matrix m n S" using assms(1) that by (simp add: is_matrix_scale)
    then show ?thesis using col that assms(3) by (simp add: column_scale)
  qed
  ultimately show ?thesis by blast
qed

theorem project_one_hot_is_column_witness:
  "is_matrix 2 3 [[1, 0, -1], [0, 2, 2]] \<and> (0::nat) < 2 \<and> (1::nat) < 3
   \<and> project [[1, 0, -1], [0, 2, 2]] [one_hot 3 1] = Inr [[0, 2]]
   \<and> column [[1, 0, -1], [0, 2, 2]] 1 = [0, 2]"
proof -
  have h: "is_matrix 2 3 [[1, 0, -1], [0, 2, 2]]" by (simp add: is_matrix_def)
  have c: "column [[1, 0, -1], [0, 2, 2]] 1 = [0, 2]" by (simp add: column_def)
  show ?thesis
    using h c project_one_hot_is_column [of 2 3 "[[1, 0, -1], [0, 2, 2]]" 1] by simp
qed

subsection \<open>One projection matrix for both corpora\<close>

lemma cell11_frame:
  "cell11 t = Inr t' \<Longrightarrow> rp_components t' = rp_components t \<and> np_rng t' = np_rng t"
  by (auto simp: cell11_def split: option.splits sum.splits)

lemma cell16_frame:
  "cell16 M t = Inr t' \<Longrightarrow> rp_components t' = rp_components t \<and> np_rng t' = np_rng t"
  by (auto simp: cell16_def)

lemma cell17_frame:
  "cell17 t = Inr t' \<Longrightarrow> rp_components t' = rp_components t \<and> np_rng t' = np_rng t"
  by (auto simp: cell17_def split: option.splits sum.splits)

lemma run_projection_Inr:
  assumes "run_projection F fit M Mtest g = Inr s"
  shows "\<exists>k R g' P Q.
           compute_m F (nrows M) cell7_error = Inr k
         \<and> fit g k (ncols M) (density_of F (ncols M)) = Inr (R, g')
         \<and> project R M = Inr P \<and> project R Mtest = Inr Q
         \<and> s = \<lparr>np_rng = g', nb_tfidf = M, nb_p = nrows Mtest, nb_n = ncols Mtest, nb_m = k,
                 rp_components = Some R, nb_M_prime = P, nb_tfidf_test = Mtest,
                 nb_M_prime_test = Q\<rparr>"
  using assms
  by (auto simp: run_projection_def fresh_def cell5_def cell7_def cell8_def cell11_def
        cell16_def cell17_def split: sum.splits prod.splits)

text \<open>
  Claim C2. Whenever cells 5 to 17 run to the end, the generator was asked for a
  projection matrix once, from the initial generator state and the shape of the
  training matrix: the final \<open>rp.components_\<close> is the matrix \<open>R\<close> of that call, the
  final generator state is the one that call returned, and both the reduced training
  matrix and the reduced test matrix are projections by that same \<open>R\<close>. Each cell after
  the fit (11--12, 16, 17) leaves \<open>rp.components_\<close> and the generator state as it
  found them.
\<close>

theorem projection_matrix_fitted_once:
  assumes "run_projection F fit M Mtest g = Inr s"
  shows "(\<exists>k R g'.
            compute_m F (nrows M) cell7_error = Inr k
          \<and> fit g k (ncols M) (density_of F (ncols M)) = Inr (R, g')
          \<and> rp_components s = Some R
          \<and> np_rng s = g'
          \<and> project R M = Inr (nb_M_prime s)
          \<and> project R Mtest = Inr (nb_M_prime_test s))
       \<and> (\<forall>t t'. cell11 t = Inr t' \<or> cell16 Mtest t = Inr t' \<or> cell17 t = Inr t'
              \<longrightarrow> rp_components t' = rp_components t \<and> np_rng t' = np_rng t)"
proof -
  obtain k R g' P Q where
    "compute_m F (nrows M) cell7_error = Inr k"
    "fit g k (ncols M) (density_of F (ncols M)) = Inr (R, g')"
    "project R M = Inr P" "project R Mtest = Inr Q"
    "s = \<lparr>np_rng = g', nb_tfidf = M, nb_p = nrows Mtest, nb_n = ncols Mtest, nb_m = k,
          rp_components = Some R, nb_M_prime = P, nb_tfidf_test = Mtest,
          nb_M_prime_test = Q\<rparr>"
    using run_projection_Inr [OF assms] by blast
  then have first: "\<exists>k R g'.
            compute_m F (nrows M) cell7_error = Inr k
          \<and> fit g k (ncols M) (density_of F (ncols M)) = Inr (R, g')
          \<and> rp_components s = Some R
          \<and> np_rng s = g'
          \<and> project R M = Inr (nb_M_prime s)
          \<and> project R Mtest = Inr (nb_M_prime_test s)"
    by simp
  show ?thesis
  proof (intro conjI allI impI)
    show "\<exists>k R g'.
            compute_m F (nrows M) cell7_error = Inr k
          \<and> fit g k (ncols M) (density_of F (ncols M)) = Inr (R, g')
          \<and> rp_components s = Some R
          \<and> np_rng s = g'
          \<and> project R M = Inr (nb_M_prime s)
          \<and> project R Mtest = Inr (nb_M_prime_test s)"
      by (rule first)
  next
    fix t t'
    assume "cell11 t = Inr t' \<or> cell16 Mtest t = Inr t' \<or> cell17 t = Inr t'"
    then show "rp_components t' = rp_components t"
      using cell11_frame cell16_frame cell17_frame by blast
  next
    fix t t'
    assume "cell11 t = Inr t' \<or> cell16 Mtest t = Inr t' \<or> cell17 t = Inr t'"
    then show "np_rng t' = np_rng t"
      using cell11_frame cell16_frame cell17_frame by blast
  qed
qed

theorem projection_matrix_fitted_once_witness:
  "\<exists>s. run_projection exact (\<lambda>g k n d. Inr (replicate (nat k) (replicate n 1), Suc g))
          [[1, 0]] [[0, 1], [1, 1]] (0::nat) = Inr s
       \<and> rp_components s = Some [[1, 1]] \<and> np_rng s = 1
       \<and> project [[1, 1]] [[1, 0]] = Inr (nb_M_prime s)
       \<and> project [[1, 1]] [[0, 1], [1, 1]] = Inr (nb_M_prime_test s)"
proof -
  let ?fit = "\<lambda>(g::nat) (k::int) (n::nat) (d::float64).
     (Inr (replicate (nat k) (replicate n (1::real)), Suc g) :: error + (matrix \<times> nat))"
  have m: "compute_m exact (nrows [[1, 0]]) cell7_error = Inr 1"
    using compute_m_regular [OF ieee_exact, of 1 cell7_error]
    by (auto simp: nrows_def cell7_error_def)
  have p1: "project [[1, 1]] [[1, 0]] = Inr [[1]]"
    by (simp add: project_def np_dot_def mat_T_def ncols_def nrows_def column_def dot_def upt_rec)
  have p2: "project [[1, 1]] [[0, 1], [1, 1]] = Inr [[1], [2]]"
    by (simp add: project_def np_dot_def mat_T_def ncols_def nrows_def column_def dot_def upt_rec)
  have run: "run_projection exact ?fit [[1, 0]] [[0, 1], [1, 1]] 0 =
     Inr \<lparr>np_rng = 1, nb_tfidf = [[1, 0]], nb_p = 2, nb_n = 2, nb_m = 1,
          rp_components = Some [[1, 1]], nb_M_prime = [[1]], nb_tfidf_test = [[0, 1], [1, 1]],
          nb_M_prime_test = [[1], [2]]\<rparr>"
    using m p1 p2
    by (simp add: run_projection_def fresh_def cell5_def cell7_def cell8_def cell11_def
        cell16_def cell17_def nrows_def ncols_def numeral_2_eq_2)
  show ?thesis
    using projection_matrix_fitted_once [OF run] run m by (auto simp: ncols_def nrows_def numeral_2_eq_2)
qed

subsection \<open>Drawing a batch\<close>

lemma comprehension_item:
  "\<forall>i \<in> set idx. i < length xs \<Longrightarrow> comprehension (item xs) idx = Inr (map ((!) xs) idx)"
  by (induction idx) (simp_all add: item_def)

lemma slice_to_distinct: "distinct xs \<Longrightarrow> distinct (slice_to num xs)"
  by (simp add: slice_to_def)

lemma slice_to_subset: "set (slice_to num xs) \<subseteq> set xs"
  by (auto simp: slice_to_def dest: in_set_takeD)

lemma slice_to_length: "0 \<le> num \<Longrightarrow> length (slice_to num xs) = min (nat num) (length xs)"
  by (simp add: slice_to_def)

lemma shuffled_range:
  assumes "mset ys = mset [0..<len]"
  shows "distinct ys" and "set ys = {0..<len}" and "length ys = len"
proof -
  show "distinct ys" using assms by (metis distinct_upt mset_eq_imp_distinct_iff)
  show "set ys = {0..<len}" using assms by (metis mset_eq_setD atLeastLessThan_upt)
  show "length ys = len" using assms by (metis mset_eq_length length_upt diff_zero)
qed

lemma batch_idx_props:
  assumes "mset (fst (shuffle g [0..<len])) = mset [0..<len]"
  shows "distinct (batch_idx shuffle num len g)"
    and "set (batch_idx shuffle num len g) \<subseteq> {0..<len}"
    and "0 \<le> num \<Longrightarrow> length (batch_idx shuffle num len g) = min (nat num) len"
  using shuffled_range [OF assms] slice_to_subset [of num "fst (shuffle g [0..<len])"]
  by (simp_all add: batch_idx_def slice_to_distinct slice_to_length)

lemma next_batch_Inr:
  assumes perm: "mset (fst (shuffle g [0..<length data])) = mset [0..<length data]"
    and lab: "length data \<le> length labels"
  shows "next_batch shuffle num data labels g =
           (Inr (map ((!) data) (batch_idx shuffle num (length data) g),
                 map ((!) labels) (batch_idx shuffle num (length data) g)),
            snd (shuffle g [0..<length data]))"
proof -
  let ?idx = "batch_idx shuffle num (length data) g"
  have sub: "set ?idx \<subseteq> {0..<length data}"
    using batch_idx_props(2) [of shuffle g "length data" num] perm by simp
  have d: "comprehension (item data) ?idx = Inr (map ((!) data) ?idx)"
    using sub by (intro comprehension_item) auto
  have l: "comprehension (item labels) ?idx = Inr (map ((!) labels) ?idx)"
    using sub lab by (intro comprehension_item) auto
  show ?thesis by (simp add: next_batch_def Let_def d l)
qed



text \<open>
  Claim C10. For a count \<open>num \<ge> 0\<close>, a shuffle that returns a permutation of
  \<open>arange(len(data))\<close> and one label for every document, the call returns two arrays of
  exactly \<open>min(num, len(data))\<close> entries each, so fewer than \<open>num\<close> when \<open>num\<close> exceeds
  \<open>len(data)\<close>, and the \<open>k\<close>-th returned sample and the \<open>k\<close>-th returned label are
  \<open>data[i]\<close> and \<open>labels[i]\<close> for one and the same document index \<open>i\<close>.
\<close>

theorem next_batch_size_and_pairing:
  assumes "0 \<le> num"
    and "mset (fst (shuffle g [0..<length data])) = mset [0..<length data]"
    and "length data \<le> length labels"
  shows "\<exists>xs ys. fst (next_batch shuffle num data labels g) = Inr (xs, ys)
           \<and> length xs = min (nat num) (length data)
           \<and> length ys = min (nat num) (length data)
           \<and> (\<forall>k < length xs. \<exists>i < length data. xs ! k = data ! i \<and> ys ! k = labels ! i)"
proof -
  let ?idx = "batch_idx shuffle num (length data) g"
  have run: "fst (next_batch shuffle num data labels g)
               = Inr (map ((!) data) ?idx, map ((!) labels) ?idx)"
    using next_batch_Inr [of shuffle g data labels num] assms(2,3) by simp
  have len: "length ?idx = min (nat num) (length data)"
    using batch_idx_props(3) [of shuffle g "length data" num] assms(1,2) by simp
  have sub: "set ?idx \<subseteq> {0..<length data}"
    using batch_idx_props(2) [of shuffle g "length data" num] assms(2) by simp
  have pair: "\<exists>i < length data. map ((!) data) ?idx ! k = data ! i \<and> map ((!) labels) ?idx ! k = labels ! i"
    if "k < length (map ((!) data) ?idx)" for k
  proof -
    have "?idx ! k \<in> set ?idx" using that by simp
    then have "?idx ! k < length data" using sub by auto
    then show ?thesis using that by auto
  qed
  show ?thesis using run len pair by (intro exI [of _ "map ((!) data) ?idx"] exI [of _ "map ((!) labels) ?idx"]) simp
qed

theorem next_batch_size_and_pairing_witness:
  "(0::int) \<le> 5
   \<and> mset (fst ((\<lambda>g xs. (rev xs, Suc g)) (0::nat) [0..<length ''abc''])) = mset [0..<length ''abc'']
   \<and> length ''abc'' \<le> length [10, 20, 30 :: nat]
   \<and> (\<exists>xs ys. fst (next_batch (\<lambda>g xs. (rev xs, Suc g)) 5 ''abc'' [10, 20, 30 :: nat] (0::nat)) = Inr (xs, ys)
         \<and> length xs = min (nat 5) (length ''abc'') \<and> length ys = min (nat 5) (length ''abc''))
   \<and> fst (next_batch (\<lambda>g xs. (rev xs, Suc g)) 5 ''abc'' [10, 20, 30 :: nat] (0::nat))
        = Inr (''cba'', [30, 20, 10])"
proof -
  have run: "fst (next_batch (\<lambda>g xs. (rev xs, Suc g)) 5 ''abc'' [10, 20, 30 :: nat] (0::nat))
        = Inr (''cba'', [30, 20, 10])"
    by (simp add: next_batch_def batch_idx_def slice_to_def item_def upt_rec)
  show ?thesis
  using next_batch_size_and_pairing
      [where shuffle = "\<lambda>g xs. (rev xs, Suc g)" and g = "0::nat" and data = "''abc''"
         and labels = "[10, 20, 30 :: nat]" and num = 5] run
    by simp
qed

subsection \<open>The training loop\<close>

lemma for_each_append:
  "for_each (xs @ ys) body s =
     (case for_each xs body s of Inl e \<Rightarrow> Inl e | Inr s' \<Rightarrow> for_each ys body s')"
  by (induction xs arbitrary: s) (auto split: sum.splits)

lemma for_each_single: "for_each [i] body s = body i s"
  by (simp split: sum.splits)
















subsection \<open>The two classifiers compared\<close>

text \<open>
  The hidden layers of the two networks are not of the same width: 30 units in cell 20
  and 5 units in cell 21, whatever the data.
\<close>

lemma hidden_widths_differ:
  "hidden_units (cell20_params M_prime) \<noteq> hidden_units (cell21_params tfidf)"
  by (simp add: cell20_params_def cell21_params_def)

end
